theory Spec2Isabelle
  imports Main "HOL-Library.AList"
begin

section \<open>Pattern matching as Python's \<open>re\<close> module performs it\<close>

text \<open>
  Text is a list of 8-bit characters. The two patterns of \<open>MyLibrary\<close> are regular
  expressions without groups that are referred to later, so a backtracking matcher is
  described completely by the list of end states it can reach from a start state, in the
  order in which the engine tries them: the head of the list is the match that is
  reported. A match state is the position in the subject together with the text that is
  still to be read.

  Within the 8-bit characters the class \<open>\d\<close> is the ten ASCII digits, and \<open>\s\<close> is
  the characters 9 to 13, 28 to 32, 133 and 160.
\<close>

datatype citem = Ch char | Rng char char | Digit | Space

datatype rx =
    Lit char
  | Cls "citem list"
  | Seq rx rx
  | Alt rx rx
  | Opt rx
  | Plus rx
  | Rep nat rx
  | Bol
  | Eol

type_synonym mstate = "nat \<times> string"

definition is_digit :: "char \<Rightarrow> bool" where
  "is_digit c = (48 \<le> (of_char c :: nat) \<and> (of_char c :: nat) \<le> 57)"

definition is_space :: "char \<Rightarrow> bool" where
  "is_space c = (let n = (of_char c :: nat) in
     (9 \<le> n \<and> n \<le> 13) \<or> (28 \<le> n \<and> n \<le> 32) \<or> n = 133 \<or> n = 160)"

fun in_item :: "char \<Rightarrow> citem \<Rightarrow> bool" where
  "in_item c (Ch k) = (c = k)"
| "in_item c (Rng lo hi) = ((of_char lo :: nat) \<le> of_char c \<and> (of_char c :: nat) \<le> of_char hi)"
| "in_item c Digit = is_digit c"
| "in_item c Space = is_space c"

definition in_cls :: "citem list \<Rightarrow> char \<Rightarrow> bool" where
  "in_cls items c = list_ex (in_item c) items"

fun rx_weight :: "rx \<Rightarrow> nat" where
  "rx_weight (Lit c) = 1"
| "rx_weight (Cls items) = 1"
| "rx_weight (Seq a b) = Suc (rx_weight a + rx_weight b)"
| "rx_weight (Alt a b) = Suc (rx_weight a + rx_weight b)"
| "rx_weight (Opt a) = Suc (rx_weight a)"
| "rx_weight (Plus a) = Suc (rx_weight a)"
| "rx_weight (Rep n a) = Suc (n + rx_weight a)"
| "rx_weight Bol = 1"
| "rx_weight Eol = 1"

text \<open>
  \<open>ends r st\<close>: the states in which a match of \<open>r\<close> begun in \<open>st\<close> can end, most
  preferred first. Quantifiers are greedy: one more iteration is tried before stopping.
  An iteration of \<open>+\<close> that consumed nothing is not repeated. \<open>^\<close> holds at position
  0 only; \<open>$\<close> holds at the end of the text and before a newline that ends the text.
\<close>

function ends :: "rx \<Rightarrow> mstate \<Rightarrow> mstate list" where
  "ends (Lit c) (i, rest) =
     (case rest of [] \<Rightarrow> [] | x # xs \<Rightarrow> if x = c then [(Suc i, xs)] else [])"
| "ends (Cls items) (i, rest) =
     (case rest of [] \<Rightarrow> [] | x # xs \<Rightarrow> if in_cls items x then [(Suc i, xs)] else [])"
| "ends (Seq a b) st = concat (map (ends b) (ends a st))"
| "ends (Alt a b) st = ends a st @ ends b st"
| "ends (Opt a) st = ends a st @ [st]"
| "ends (Plus a) st =
     concat (map (\<lambda>st'. (if length (snd st') < length (snd st) then ends (Plus a) st' else []) @ [st'])
                 (ends a st))"
| "ends (Rep 0 a) st = [st]"
| "ends (Rep (Suc n) a) st = concat (map (ends (Rep n a)) (ends a st))"
| "ends Bol (i, rest) = (if i = 0 then [(i, rest)] else [])"
| "ends Eol (i, rest) = (if rest = [] \<or> rest = [CHR 0x0A] then [(i, rest)] else [])"
  by pat_completeness auto
termination
  by (relation "measures [\<lambda>(r, st). rx_weight r, \<lambda>(r, st). length (snd st)]") auto

declare ends.simps(6) [simp del]

text \<open>\<open>re.match\<close>: the match begins at position 0; the result is where it ends.\<close>

definition re_match :: "rx \<Rightarrow> string \<Rightarrow> nat option" where
  "re_match r s = (case ends r (0, s) of [] \<Rightarrow> None | (j, rest) # more \<Rightarrow> Some j)"

text \<open>
  \<open>re.findall\<close> repeats a search from where the previous match ended. A search tries
  each start position in turn, from left to right. After an empty match the next search
  may not report an empty match at the same position (\<open>must\<close>).
\<close>

fun search :: "rx \<Rightarrow> bool \<Rightarrow> mstate \<Rightarrow> (mstate \<times> mstate) option" where
  "search r must (i, rest) =
     (case filter (\<lambda>e. \<not> (must \<and> fst e = i)) (ends r (i, rest)) of
        e # more \<Rightarrow> Some ((i, rest), e)
      | [] \<Rightarrow> (case rest of [] \<Rightarrow> None | c # cs \<Rightarrow> search r False (Suc i, cs)))"

function findall :: "rx \<Rightarrow> bool \<Rightarrow> mstate \<Rightarrow> string list" where
  "findall r must st =
     (case search r must st of
        None \<Rightarrow> []
      | Some ((i, rest), (j, rest')) \<Rightarrow> take (j - i) rest # findall r (j = i) (j, rest'))"
  by pat_completeness auto
termination
proof (relation "measure (\<lambda>(r, must, st). 2 * length (snd st) + (if must then 0 else 1))")
  show "wf (measure (\<lambda>(r, must, st). 2 * length (snd st) + (if must then 0 else 1)))"
    by simp
next
  fix r :: rx and must :: bool and st x y :: mstate and x2 :: "mstate \<times> mstate"
    and i j :: nat and rest rest' :: string
  assume found: "search r must st = Some x2" and x2: "(x, y) = x2"
    and x: "(i, rest) = x" and y: "(j, rest') = y"
  have reach: "\<exists>p. snd s = p @ snd e \<and> fst e = fst s + length p"
    if "e \<in> set (ends q s)" for q s e
    using that
  proof (induction q s arbitrary: e rule: ends.induct)
    case (1 c i rest)
    then show ?case by (cases rest) (auto split: if_splits)
  next
    case (2 items i rest)
    then show ?case by (cases rest) (auto split: if_splits)
  next
    case (3 a c s)
    then obtain m where m: "m \<in> set (ends a s)" and e: "e \<in> set (ends c m)"
      by auto
    from "3.IH"(1)[OF m] obtain p where p: "snd s = p @ snd m" "fst m = fst s + length p"
      by auto
    from "3.IH"(2)[OF m e] obtain p' where "snd m = p' @ snd e" "fst e = fst m + length p'"
      by auto
    with p show ?case by (intro exI[of _ "p @ p'"]) simp
  next
    case (4 a b s)
    then show ?case by auto
  next
    case (5 a s)
    then show ?case by auto
  next
    case (6 a s)
    from "6.prems" have "e \<in> set (concat (map (\<lambda>st'. (if length (snd st') < length (snd s)
        then ends (Plus a) st' else []) @ [st']) (ends a s)))"
      by (subst (asm) ends.simps(6))
    then obtain m where m: "m \<in> set (ends a s)"
      and e: "(length (snd m) < length (snd s) \<and> e \<in> set (ends (Plus a) m)) \<or> e = m"
      by (auto split: if_splits)
    from "6.IH"(1)[OF m] obtain p where p: "snd s = p @ snd m" "fst m = fst s + length p"
      by auto
    from e show ?case
    proof
      assume "e = m"
      with p show ?thesis by auto
    next
      assume "length (snd m) < length (snd s) \<and> e \<in> set (ends (Plus a) m)"
      then have "\<exists>p'. snd m = p' @ snd e \<and> fst e = fst m + length p'"
        by (intro "6.IH"(2)[OF m]) simp_all
      then obtain p' where "snd m = p' @ snd e" "fst e = fst m + length p'"
        by blast
      with p show ?thesis by (intro exI[of _ "p @ p'"]) simp
    qed
  next
    case (7 a s)
    then show ?case by simp
  next
    case (8 n a s)
    then obtain m where m: "m \<in> set (ends a s)" and e: "e \<in> set (ends (Rep n a) m)"
      by auto
    from "8.IH"(1)[OF m] obtain p where p: "snd s = p @ snd m" "fst m = fst s + length p"
      by auto
    from "8.IH"(2)[OF m e] obtain p' where "snd m = p' @ snd e" "fst e = fst m + length p'"
      by auto
    with p show ?case by (intro exI[of _ "p @ p'"]) simp
  next
    case (9 i rest)
    then show ?case by (simp split: if_splits)
  next
    case (10 i rest)
    then show ?case by (simp split: if_splits)
  qed
  have found_at: "length (snd s0) \<le> length (snd s) \<and>
      (\<exists>p. snd s0 = p @ snd e \<and> fst e = fst s0 + length p) \<and>
      (length (snd s0) = length (snd s) \<and> fst e = fst s0 \<longrightarrow> \<not> mu)"
    if "search q mu s = Some (s0, e)" for q mu s s0 e
    using that
  proof (induction q mu s rule: search.induct)
    case (1 r mu i' b)
    show ?case
    proof (cases "filter (\<lambda>e. \<not> (mu \<and> fst e = i')) (ends r (i', b))")
      case Nil
      with "1.prems" obtain c cs where b: "b = c # cs"
        and s: "search r False (Suc i', cs) = Some (s0, e)"
        by (auto split: list.splits)
      from "1.IH"[OF Nil b s] b show ?thesis by auto
    next
      case (Cons e' more)
      with "1.prems" have eq: "s0 = (i', b)" "e' = e" by auto
      from Cons have "e' \<in> set (filter (\<lambda>e. \<not> (mu \<and> fst e = i')) (ends r (i', b)))"
        by simp
      then have mem: "e' \<in> set (ends r (i', b))" and ok: "\<not> (mu \<and> fst e' = i')"
        by auto
      from reach[OF mem] eq ok show ?thesis by auto
    qed
  qed
  from found x2 x y have "search r must st = Some ((i, rest), (j, rest'))" by simp
  from found_at[OF this]
  have "length rest \<le> length (snd st) \<and> (\<exists>p. rest = p @ rest' \<and> j = i + length p) \<and>
      (length rest = length (snd st) \<and> j = i \<longrightarrow> \<not> must)"
    by simp
  then obtain p where le: "length rest \<le> length (snd st)"
    and p: "rest = p @ rest'" "j = i + length p"
    and adv: "length rest = length (snd st) \<and> j = i \<longrightarrow> \<not> must"
    by blast
  show "((r, j = i, j, rest'), r, must, st)
        \<in> measure (\<lambda>(r, must, st). 2 * length (snd st) + (if must then 0 else 1))"
  proof (cases "length p")
    case 0
    with p adv le show ?thesis by (cases "length rest = length (snd st)") auto
  next
    case (Suc n)
    with p le show ?thesis by auto
  qed
qed

declare search.simps [simp del]
declare findall.simps [simp del]

section \<open>\<open>MyLibrary\<close>\<close>

definition alnum :: "citem list" where
  "alnum = [Rng CHR ''a'' CHR ''z'', Rng CHR ''A'' CHR ''Z'', Rng CHR ''0'' CHR ''9'']"

text \<open>\<^verbatim>\<open>[a-zA-Z0-9_.+-]+@[a-zA-Z0-9-]+\.[a-zA-Z0-9-.]+\<close>\<close>

definition email_pattern :: rx where
  "email_pattern =
     Seq (Plus (Cls (alnum @ [Ch CHR ''_'', Ch CHR ''.'', Ch CHR ''+'', Ch CHR ''-''])))
    (Seq (Lit CHR ''@'')
    (Seq (Plus (Cls (alnum @ [Ch CHR ''-''])))
    (Seq (Lit CHR ''.'')
         (Plus (Cls (alnum @ [Ch CHR ''-'', Ch CHR ''.'']))))))"

definition extract_emails :: "string \<Rightarrow> string list" where
  "extract_emails text = findall email_pattern False (0, text)"

text \<open>\<^verbatim>\<open>^((\(\d{3}\)\s?)|(\d{3}-))?\d{3}-\d{4}$\<close>\<close>

definition phone_pattern :: rx where
  "phone_pattern =
     Seq Bol
    (Seq (Opt (Alt (Seq (Lit CHR ''('') (Seq (Rep 3 (Cls [Digit])) (Seq (Lit CHR '')'') (Opt (Cls [Space])))))
                   (Seq (Rep 3 (Cls [Digit])) (Lit CHR ''-''))))
    (Seq (Rep 3 (Cls [Digit]))
    (Seq (Lit CHR ''-'')
    (Seq (Rep 4 (Cls [Digit]))
         Eol))))"

definition validate_phone_number :: "string \<Rightarrow> bool" where
  "validate_phone_number phone_number = (re_match phone_pattern phone_number \<noteq> None)"

section \<open>Files\<close>

text \<open>
  The backing resources are files addressed by name. A file system maps a name to the
  text of the file, when there is one; every \<open>open\<close> is recorded in a trace, so that an
  operation that touches no file leaves the whole file system as it was.
\<close>

datatype error =
    ValueError string
  | FileNotFoundError
  | CsvError string
  | JSONDecodeError string
  | TypeError string

datatype io_event = OpenRead string | OpenWrite string

record fsys =
  files :: "string \<rightharpoonup> string"
  trace :: "io_event list"

text \<open>\<open>open(filename, 'r')\<close> and reading the text: a missing file raises.\<close>

definition open_read :: "string \<Rightarrow> fsys \<Rightarrow> (error + string) \<times> fsys" where
  "open_read name fs =
     (case files fs name of
        None \<Rightarrow> (Inl FileNotFoundError, fs\<lparr>trace := trace fs @ [OpenRead name]\<rparr>)
      | Some content \<Rightarrow> (Inr content, fs\<lparr>trace := trace fs @ [OpenRead name]\<rparr>))"

text \<open>\<open>open(filename, 'w')\<close> followed by writing \<open>content\<close>: the file is replaced.\<close>

definition open_write :: "string \<Rightarrow> string \<Rightarrow> fsys \<Rightarrow> fsys" where
  "open_write name content fs =
     fs\<lparr>files := (files fs)(name \<mapsto> content), trace := trace fs @ [OpenWrite name]\<rparr>"

record file_processor =
  filename :: string

section \<open>\<open>CSVProcessor\<close>: the \<open>csv\<close> module with its default dialect\<close>

text \<open>
  The default dialect: delimiter \<open>,\<close>, quote character \<open>"\<close>, doubled quotes, line
  terminator \<open>\r\n\<close>, minimal quoting, no escape character, not strict.
\<close>

definition CR :: char where "CR = CHR 0x0D"
definition LF :: char where "LF = CHR 0x0A"
definition quotechar :: char where "quotechar = CHR 0x22"
definition delimiter :: char where "delimiter = CHR '',''"

subsection \<open>Writer\<close>

text \<open>
  A field is quoted when it holds the delimiter, the quote character or a character of
  the line terminator; a quote character in the field is doubled. A record that would be
  empty although it has a field (one field, the empty text) is written as \<open>""\<close>.
\<close>

definition needs_quote :: "char \<Rightarrow> bool" where
  "needs_quote c = (c = delimiter \<or> c = quotechar \<or> c = CR \<or> c = LF)"

definition join_append_data :: "string \<Rightarrow> string" where
  "join_append_data field = concat (map (\<lambda>c. if c = quotechar then [quotechar, c] else [c]) field)"

definition join_append :: "string \<Rightarrow> string" where
  "join_append field =
     (if list_ex needs_quote field then [quotechar] @ join_append_data field @ [quotechar]
      else join_append_data field)"

fun join_fields :: "string list \<Rightarrow> string" where
  "join_fields [] = []"
| "join_fields [f] = join_append f"
| "join_fields (f # g # fs) = join_append f @ [delimiter] @ join_fields (g # fs)"

definition writerow :: "string list \<Rightarrow> string" where
  "writerow row =
     (if row = [[]] then [quotechar, quotechar] else join_fields row) @ [CR, LF]"

definition writerows :: "string list list \<Rightarrow> string" where
  "writerows rows = concat (map writerow rows)"

subsection \<open>Reader\<close>

text \<open>
  The file is opened with \<open>newline=''\<close>: iterating over it yields the lines, each with
  its ending \<open>\n\<close>, \<open>\r\<close> or \<open>\r\n\<close> left as it is.
\<close>

fun readlines :: "string \<Rightarrow> string \<Rightarrow> string list" where
  "readlines cur [] = (if cur = [] then [] else [cur])"
| "readlines cur (c # cs) =
     (if c = LF then (cur @ [c]) # readlines [] cs
      else if c = CR then
        (case cs of
           [] \<Rightarrow> [cur @ [c]]
         | d # ds \<Rightarrow> if d = LF then (cur @ [c, d]) # readlines [] ds
                    else (cur @ [c]) # readlines [] cs)
      else readlines (cur @ [c]) cs)"

datatype parser_state =
    START_RECORD | START_FIELD | IN_FIELD | IN_QUOTED_FIELD | QUOTE_IN_QUOTED_FIELD | EAT_CRNL

record reader =
  state :: parser_state
  field :: string
  fields_r :: "string list"

definition parse_reset :: reader where
  "parse_reset = \<lparr>state = START_RECORD, field = [], fields_r = []\<rparr>"

definition parse_save_field :: "reader \<Rightarrow> reader" where
  "parse_save_field r = r\<lparr>fields_r := fields_r r @ [field r], field := []\<rparr>"

definition parse_add_char :: "reader \<Rightarrow> char \<Rightarrow> reader" where
  "parse_add_char r c = r\<lparr>field := field r @ [c]\<rparr>"

definition is_newline :: "char \<Rightarrow> bool" where
  "is_newline c = (c = LF \<or> c = CR)"

text \<open>
  One step of the reader's automaton; \<open>None\<close> is the end-of-line signal that the
  reader gives itself after the last character of each line.
\<close>

definition start_field :: "reader \<Rightarrow> char option \<Rightarrow> reader" where
  "start_field r ch =
     (case ch of
        None \<Rightarrow> (parse_save_field r)\<lparr>state := START_RECORD\<rparr>
      | Some c \<Rightarrow>
          if is_newline c then (parse_save_field r)\<lparr>state := EAT_CRNL\<rparr>
          else if c = quotechar then r\<lparr>state := IN_QUOTED_FIELD\<rparr>
          else if c = delimiter then (parse_save_field r)\<lparr>state := START_FIELD\<rparr>
          else (parse_add_char r c)\<lparr>state := IN_FIELD\<rparr>)"

fun parse_process_char :: "reader \<Rightarrow> char option \<Rightarrow> error + reader" where
  "parse_process_char r ch =
     (case state r of
        START_RECORD \<Rightarrow>
          (case ch of
             None \<Rightarrow> Inr r
           | Some c \<Rightarrow> if is_newline c then Inr (r\<lparr>state := EAT_CRNL\<rparr>)
                       else Inr (start_field r ch))
      | START_FIELD \<Rightarrow> Inr (start_field r ch)
      | IN_FIELD \<Rightarrow>
          (case ch of
             None \<Rightarrow> Inr ((parse_save_field r)\<lparr>state := START_RECORD\<rparr>)
           | Some c \<Rightarrow>
               if is_newline c then Inr ((parse_save_field r)\<lparr>state := EAT_CRNL\<rparr>)
               else if c = delimiter then Inr ((parse_save_field r)\<lparr>state := START_FIELD\<rparr>)
               else Inr (parse_add_char r c))
      | IN_QUOTED_FIELD \<Rightarrow>
          (case ch of
             None \<Rightarrow> Inr r
           | Some c \<Rightarrow>
               if c = quotechar then Inr (r\<lparr>state := QUOTE_IN_QUOTED_FIELD\<rparr>)
               else Inr (parse_add_char r c))
      | QUOTE_IN_QUOTED_FIELD \<Rightarrow>
          (case ch of
             None \<Rightarrow> Inr ((parse_save_field r)\<lparr>state := START_RECORD\<rparr>)
           | Some c \<Rightarrow>
               if c = quotechar then Inr ((parse_add_char r c)\<lparr>state := IN_QUOTED_FIELD\<rparr>)
               else if c = delimiter then Inr ((parse_save_field r)\<lparr>state := START_FIELD\<rparr>)
               else if is_newline c then Inr ((parse_save_field r)\<lparr>state := EAT_CRNL\<rparr>)
               else Inr ((parse_add_char r c)\<lparr>state := IN_FIELD\<rparr>))
      | EAT_CRNL \<Rightarrow>
          (case ch of
             None \<Rightarrow> Inr (r\<lparr>state := START_RECORD\<rparr>)
           | Some c \<Rightarrow>
               if is_newline c then Inr r
               else Inl (CsvError ''new-line character seen in unquoted field'')))"

text \<open>The characters of one line, then the end-of-line signal.\<close>

fun feed :: "reader \<Rightarrow> string \<Rightarrow> error + reader" where
  "feed r [] = Inr r"
| "feed r (c # cs) =
     (case parse_process_char r (Some c) of Inl e \<Rightarrow> Inl e | Inr r' \<Rightarrow> feed r' cs)"

definition process_line :: "reader \<Rightarrow> string \<Rightarrow> error + reader" where
  "process_line r line =
     (case feed r line of Inl e \<Rightarrow> Inl e | Inr r' \<Rightarrow> parse_process_char r' None)"

text \<open>
  The rows of the reader: lines are consumed until the automaton is back at the start of
  a record, which completes a row. When the lines run out inside a record, the field in
  progress is saved and the record is returned if a field was begun or a quoted field is
  open; otherwise the iteration stops.
\<close>

fun read_records :: "reader \<Rightarrow> string list \<Rightarrow> error + string list list" where
  "read_records r [] =
     (if field r \<noteq> [] \<or> state r = IN_QUOTED_FIELD then Inr [fields_r (parse_save_field r)]
      else Inr [])"
| "read_records r (line # lines) =
     (case process_line r line of
        Inl e \<Rightarrow> Inl e
      | Inr r' \<Rightarrow>
          if state r' = START_RECORD then
            (case read_records parse_reset lines of
               Inl e \<Rightarrow> Inl e
             | Inr rows \<Rightarrow> Inr (fields_r r' # rows))
          else read_records r' lines)"

definition csv_reader :: "string \<Rightarrow> error + string list list" where
  "csv_reader content = read_records parse_reset (readlines [] content)"

definition read_csv :: "file_processor \<Rightarrow> fsys \<Rightarrow> (error + string list list) \<times> fsys" where
  "read_csv self fs =
     (case open_read (filename self) fs of
        (Inl e, fs') \<Rightarrow> (if e = FileNotFoundError then Inr [] else Inl e, fs')
      | (Inr content, fs') \<Rightarrow> (csv_reader content, fs'))"

definition write_csv :: "file_processor \<Rightarrow> string list list \<Rightarrow> fsys \<Rightarrow> fsys" where
  "write_csv self rows fs = open_write (filename self) (writerows rows) fs"

section \<open>\<open>JSONProcessor\<close>: the \<open>json\<close> module\<close>

text \<open>
  The values that \<open>json\<close> writes and reads, floating point numbers apart. A dictionary
  keeps its keys in the order in which they were first inserted, so it is an association
  list; in a dictionary no key occurs twice.
\<close>

datatype json =
    JNull
  | JBool bool
  | JInt int
  | JStr string
  | JList "json list"
  | JDict "(string \<times> json) list"

fun wf_json :: "json \<Rightarrow> bool" where
  "wf_json (JList xs) = list_all wf_json xs"
| "wf_json (JDict kvs) = (distinct (map fst kvs) \<and> list_all (\<lambda>kv. wf_json (snd kv)) kvs)"
| "wf_json v = True"

subsection \<open>\<open>json.dump(data, file, indent=4)\<close>\<close>

definition digit_char :: "nat \<Rightarrow> char" where
  "digit_char d = char_of (48 + d)"

function digits_of :: "nat \<Rightarrow> string" where
  "digits_of n = (if n < 10 then [digit_char n] else digits_of (n div 10) @ [digit_char (n mod 10)])"
  by pat_completeness auto
termination
  by (relation "measure id") auto

declare digits_of.simps [simp del]

definition int_repr :: "int \<Rightarrow> string" where
  "int_repr i = (if i < 0 then CHR ''-'' # digits_of (nat (- i)) else digits_of (nat i))"

definition hex_char :: "nat \<Rightarrow> char" where
  "hex_char d = (if d < 10 then char_of (48 + d) else char_of (87 + d))"

text \<open>
  \<open>ensure_ascii\<close>: a quote, a backslash and every character outside space to \<open>~\<close> is
  escaped, with a short escape where JSON has one and \<open>\u00xx\<close> otherwise.
\<close>

definition escape_char :: "char \<Rightarrow> string" where
  "escape_char c =
     (let n = (of_char c :: nat) in
      if c = CHR 0x22 then [CHR 0x5C, CHR 0x22]
      else if c = CHR 0x5C then [CHR 0x5C, CHR 0x5C]
      else if n = 10 then [CHR 0x5C, CHR ''n'']
      else if n = 13 then [CHR 0x5C, CHR ''r'']
      else if n = 9 then [CHR 0x5C, CHR ''t'']
      else if n = 8 then [CHR 0x5C, CHR ''b'']
      else if n = 12 then [CHR 0x5C, CHR ''f'']
      else if 32 \<le> n \<and> n \<le> 126 then [c]
      else [CHR 0x5C, CHR ''u'', CHR ''0'', CHR ''0'', hex_char (n div 16), hex_char (n mod 16)])"

definition encode_basestring_ascii :: "string \<Rightarrow> string" where
  "encode_basestring_ascii s = [CHR 0x22] @ concat (map escape_char s) @ [CHR 0x22]"

definition newline_indent :: "nat \<Rightarrow> string" where
  "newline_indent level = LF # replicate (4 * level) CHR '' ''"

fun iterencode :: "nat \<Rightarrow> json \<Rightarrow> string"
  and iterencode_list :: "nat \<Rightarrow> json list \<Rightarrow> string"
  and iterencode_dict :: "nat \<Rightarrow> (string \<times> json) list \<Rightarrow> string" where
  "iterencode level JNull = ''null''"
| "iterencode level (JBool b) = (if b then ''true'' else ''false'')"
| "iterencode level (JInt i) = int_repr i"
| "iterencode level (JStr s) = encode_basestring_ascii s"
| "iterencode level (JList xs) =
     (if xs = [] then ''[]''
      else ''['' @ newline_indent (Suc level) @ iterencode_list (Suc level) xs
           @ newline_indent level @ '']'')"
| "iterencode level (JDict kvs) =
     (if kvs = [] then ''{}''
      else ''{'' @ newline_indent (Suc level) @ iterencode_dict (Suc level) kvs
           @ newline_indent level @ ''}'')"
| "iterencode_list level [] = []"
| "iterencode_list level (x # xs) =
     iterencode level x
     @ (if xs = [] then [] else '','' @ newline_indent level @ iterencode_list level xs)"
| "iterencode_dict level [] = []"
| "iterencode_dict level (kv # kvs) =
     encode_basestring_ascii (fst kv) @ '': '' @ iterencode level (snd kv)
     @ (if kvs = [] then [] else '','' @ newline_indent level @ iterencode_dict level kvs)"

definition json_dumps :: "json \<Rightarrow> string" where
  "json_dumps data = iterencode 0 data"

subsection \<open>\<open>json.load(file)\<close>\<close>

definition is_ws :: "char \<Rightarrow> bool" where
  "is_ws c = (c = CHR '' '' \<or> c = CHR 0x09 \<or> c = LF \<or> c = CR)"

definition skip_ws :: "string \<Rightarrow> string" where
  "skip_ws s = dropWhile is_ws s"

definition hex_val :: "char \<Rightarrow> nat option" where
  "hex_val c =
     (let n = (of_char c :: nat) in
      if 48 \<le> n \<and> n \<le> 57 then Some (n - 48)
      else if 97 \<le> n \<and> n \<le> 102 then Some (n - 87)
      else if 65 \<le> n \<and> n \<le> 70 then Some (n - 55)
      else None)"

text \<open>
  The four hexadecimal digits after \<open>\u\<close>. A code above 255 denotes a character that
  is not among the 8-bit characters; it is reported as \<open>NotModelled\<close>.
\<close>

definition decode_uXXXX :: "string \<Rightarrow> error + char" where
  "decode_uXXXX s =
     (case map hex_val (take 4 s) of
        [Some a, Some b, Some c, Some d] \<Rightarrow>
          (let n = ((a * 16 + b) * 16 + c) * 16 + d in
           if n < 256 then Inr (char_of n) else Inl (ValueError ''NotModelled''))
      | _ \<Rightarrow> Inl (JSONDecodeError ''Invalid uXXXX escape''))"

definition backslash :: "char \<Rightarrow> char option" where
  "backslash e =
     (if e = CHR 0x22 then Some (CHR 0x22)
      else if e = CHR 0x5C then Some (CHR 0x5C)
      else if e = CHR ''/'' then Some (CHR ''/'')
      else if e = CHR ''b'' then Some (CHR 0x08)
      else if e = CHR ''f'' then Some (CHR 0x0C)
      else if e = CHR ''n'' then Some (CHR 0x0A)
      else if e = CHR ''r'' then Some (CHR 0x0D)
      else if e = CHR ''t'' then Some (CHR 0x09)
      else None)"

text \<open>The text after an opening quote, up to the closing quote (strict mode).\<close>

function scanstring :: "string \<Rightarrow> string \<Rightarrow> error + (string \<times> string)" where
  "scanstring [] acc = Inl (JSONDecodeError ''Unterminated string'')"
| "scanstring (c # cs) acc =
     (if c = CHR 0x22 then Inr (acc, cs)
      else if c = CHR 0x5C then
        (case cs of
           [] \<Rightarrow> Inl (JSONDecodeError ''Unterminated string'')
         | e # es \<Rightarrow>
             if e = CHR ''u'' then
               (case decode_uXXXX es of
                  Inl err \<Rightarrow> Inl err
                | Inr ch \<Rightarrow> scanstring (drop 4 es) (acc @ [ch]))
             else
               (case backslash e of
                  None \<Rightarrow> Inl (JSONDecodeError ''Invalid escape'')
                | Some ch \<Rightarrow> scanstring es (acc @ [ch])))
      else if (of_char c :: nat) < 32 then Inl (JSONDecodeError ''Invalid control character'')
      else scanstring cs (acc @ [c]))"
  by pat_completeness auto
termination
  by (relation "measure (\<lambda>(s, acc). length s)") auto

text \<open>
  A number: an optional minus sign, then \<open>0\<close> or a digit from 1 to 9 followed by digits.
  With a fraction or an exponent after it the number is a float, which is not modelled.
\<close>

definition digit_val :: "char \<Rightarrow> nat" where
  "digit_val c = (of_char c :: nat) - 48"

definition int_of_digits :: "string \<Rightarrow> nat" where
  "int_of_digits ds = foldl (\<lambda>a c. 10 * a + digit_val c) 0 ds"

definition is_float_tail :: "string \<Rightarrow> bool" where
  "is_float_tail s =
     (case s of
        [] \<Rightarrow> False
      | c # cs \<Rightarrow>
          if c = CHR ''.'' then (case cs of [] \<Rightarrow> False | d # ds \<Rightarrow> is_digit d)
          else if c = CHR ''e'' \<or> c = CHR ''E'' then
            (case cs of
               [] \<Rightarrow> False
             | d # ds \<Rightarrow>
                 if d = CHR ''+'' \<or> d = CHR ''-'' then (case ds of [] \<Rightarrow> False | x # xs \<Rightarrow> is_digit x)
                 else is_digit d)
          else False)"

definition match_number :: "string \<Rightarrow> (error + json \<times> string) option" where
  "match_number s =
     (let neg = (s \<noteq> [] \<and> hd s = CHR ''-'');
          body = (if neg then tl s else s)
      in case body of
           [] \<Rightarrow> None
         | d # ds \<Rightarrow>
             if \<not> is_digit d then None
             else
               (let digits = (if d = CHR ''0'' then [d] else d # takeWhile is_digit ds);
                    rest = drop (length digits) body;
                    n = int (int_of_digits digits)
                in if is_float_tail rest then Some (Inl (ValueError ''NotModelled''))
                   else Some (Inr (JInt (if neg then - n else n), rest))))"

text \<open>
  \<open>scan_once\<close> reads one value at the head of the text; \<open>json_array\<close> and
  \<open>json_object\<close> read the items of a list and the members of a dictionary, up to the
  closing bracket. The recursion is bounded by a counter that \<open>json_loads\<close> starts high
  enough for the text it reads.
\<close>

definition dict_of_pairs :: "(string \<times> json) list \<Rightarrow> (string \<times> json) list" where
  "dict_of_pairs pairs = foldl (\<lambda>d kv. AList.update (fst kv) (snd kv) d) [] pairs"

fun scan_once :: "nat \<Rightarrow> string \<Rightarrow> error + (json \<times> string)"
  and json_array :: "nat \<Rightarrow> string \<Rightarrow> json list \<Rightarrow> error + (json \<times> string)"
  and json_object :: "nat \<Rightarrow> string \<Rightarrow> (string \<times> json) list \<Rightarrow> error + (json \<times> string)" where
  "scan_once 0 s = Inl (ValueError ''RecursionError'')"
| "scan_once (Suc n) s =
     (case s of
        [] \<Rightarrow> Inl (JSONDecodeError ''Expecting value'')
      | c # cs \<Rightarrow>
          if c = CHR 0x22 then
            (case scanstring cs [] of Inl e \<Rightarrow> Inl e | Inr (str, rest) \<Rightarrow> Inr (JStr str, rest))
          else if c = CHR ''{'' then
            (case skip_ws cs of
               [] \<Rightarrow> Inl (JSONDecodeError ''Expecting property name enclosed in double quotes'')
             | d # ds \<Rightarrow>
                 if d = CHR ''}'' then Inr (JDict [], ds)
                 else if d = CHR 0x22 then json_object n ds []
                 else Inl (JSONDecodeError ''Expecting property name enclosed in double quotes''))
          else if c = CHR ''['' then
            (case skip_ws cs of
               [] \<Rightarrow> Inl (JSONDecodeError ''Expecting value'')
             | d # ds \<Rightarrow> if d = CHR '']'' then Inr (JList [], ds) else json_array n (d # ds) [])
          else if take 4 s = ''null'' then Inr (JNull, drop 4 s)
          else if take 4 s = ''true'' then Inr (JBool True, drop 4 s)
          else if take 5 s = ''false'' then Inr (JBool False, drop 5 s)
          else
            (case match_number s of
               Some r \<Rightarrow> r
             | None \<Rightarrow>
                 if take 3 s = ''NaN'' \<or> take 8 s = ''Infinity'' \<or> take 9 s = ''-Infinity''
                 then Inl (ValueError ''NotModelled'')
                 else Inl (JSONDecodeError ''Expecting value'')))"
| "json_array 0 s acc = Inl (ValueError ''RecursionError'')"
| "json_array (Suc n) s acc =
     (case scan_once n s of
        Inl e \<Rightarrow> Inl e
      | Inr (v, rest) \<Rightarrow>
          (case skip_ws rest of
             [] \<Rightarrow> Inl (JSONDecodeError ''Expecting , delimiter'')
           | d # ds \<Rightarrow>
               if d = CHR '']'' then Inr (JList (acc @ [v]), ds)
               else if d = CHR '','' then json_array n (skip_ws ds) (acc @ [v])
               else Inl (JSONDecodeError ''Expecting , delimiter'')))"
| "json_object 0 s pairs = Inl (ValueError ''RecursionError'')"
| "json_object (Suc n) s pairs =
     (case scanstring s [] of
        Inl e \<Rightarrow> Inl e
      | Inr (key, rest) \<Rightarrow>
          (case skip_ws rest of
             [] \<Rightarrow> Inl (JSONDecodeError ''Expecting : delimiter'')
           | c # cs \<Rightarrow>
               if c \<noteq> CHR '':'' then Inl (JSONDecodeError ''Expecting : delimiter'')
               else
                 (case scan_once n (skip_ws cs) of
                    Inl e \<Rightarrow> Inl e
                  | Inr (v, rest') \<Rightarrow>
                      (case skip_ws rest' of
                         [] \<Rightarrow> Inl (JSONDecodeError ''Expecting , delimiter'')
                       | d # ds \<Rightarrow>
                           if d = CHR ''}'' then Inr (JDict (dict_of_pairs (pairs @ [(key, v)])), ds)
                           else if d \<noteq> CHR '','' then Inl (JSONDecodeError ''Expecting , delimiter'')
                           else
                             (case skip_ws ds of
                                [] \<Rightarrow> Inl (JSONDecodeError
                                        ''Expecting property name enclosed in double quotes'')
                              | q # qs \<Rightarrow>
                                  if q = CHR 0x22 then json_object n qs (pairs @ [(key, v)])
                                  else Inl (JSONDecodeError
                                        ''Expecting property name enclosed in double quotes''))))))"

definition json_loads :: "string \<Rightarrow> error + json" where
  "json_loads s =
     (case scan_once (2 * length s + 2) (skip_ws s) of
        Inl e \<Rightarrow> Inl e
      | Inr (v, rest) \<Rightarrow>
          if skip_ws rest = [] then Inr v else Inl (JSONDecodeError ''Extra data''))"

text \<open>
  The file is opened in text mode with the default \<open>newline\<close>: on reading, \<open>\r\n\<close> and
  \<open>\r\<close> become \<open>\n\<close>; on writing, \<open>\n\<close> is written as it is (the line separator of a
  POSIX system).
\<close>

fun universal_newlines :: "string \<Rightarrow> string" where
  "universal_newlines [] = []"
| "universal_newlines [c] = (if c = CR then [LF] else [c])"
| "universal_newlines (c # d # cs) =
     (if c = CR \<and> d = LF then LF # universal_newlines cs
      else if c = CR then LF # universal_newlines (d # cs)
      else c # universal_newlines (d # cs))"

definition read_json :: "file_processor \<Rightarrow> fsys \<Rightarrow> (error + json) \<times> fsys" where
  "read_json self fs =
     (case open_read (filename self) fs of
        (Inl e, fs') \<Rightarrow> (if e = FileNotFoundError then Inr (JDict []) else Inl e, fs')
      | (Inr content, fs') \<Rightarrow> (json_loads (universal_newlines content), fs'))"

definition write_json :: "file_processor \<Rightarrow> json \<Rightarrow> fsys \<Rightarrow> fsys" where
  "write_json self data fs = open_write (filename self) (json_dumps data) fs"

section \<open>\<open>ContactManager\<close>\<close>

record manager =
  csv_processor :: file_processor
  json_processor :: file_processor
  contacts :: "string list list"
  metadata :: json

text \<open>
  A method is run on the manager and the file system, and gives back both together with
  its outcome: the exception that it raised, or its result.
\<close>

definition init :: "string \<Rightarrow> string \<Rightarrow> fsys \<Rightarrow> (error + manager) \<times> fsys" where
  "init csv_file json_file fs =
     (let csv_p = \<lparr>filename = csv_file\<rparr>; json_p = \<lparr>filename = json_file\<rparr>
      in case read_csv csv_p fs of
           (Inl e, fs1) \<Rightarrow> (Inl e, fs1)
         | (Inr rows, fs1) \<Rightarrow>
             (case read_json json_p fs1 of
                (Inl e, fs2) \<Rightarrow> (Inl e, fs2)
              | (Inr data, fs2) \<Rightarrow>
                  (Inr \<lparr>csv_processor = csv_p, json_processor = json_p,
                        contacts = rows, metadata = data\<rparr>, fs2)))"

definition InvalidEmail :: error where
  "InvalidEmail = ValueError ''Invalid email format.''"

definition InvalidPhone :: error where
  "InvalidPhone = ValueError ''Invalid phone number format.''"

definition add_contact ::
  "string \<Rightarrow> string \<Rightarrow> string \<Rightarrow> manager \<times> fsys \<Rightarrow> (error + unit) \<times> manager \<times> fsys" where
  "add_contact name email phone w =
     (case w of (self, fs) \<Rightarrow>
        if extract_emails email = [] then (Inl InvalidEmail, self, fs)
        else if \<not> validate_phone_number phone then (Inl InvalidPhone, self, fs)
        else (Inr (), self\<lparr>contacts := contacts self @ [[name, email, phone]]\<rparr>, fs))"

definition save_contacts :: "manager \<times> fsys \<Rightarrow> (error + unit) \<times> manager \<times> fsys" where
  "save_contacts w =
     (case w of (self, fs) \<Rightarrow> (Inr (), self, write_csv (csv_processor self) (contacts self) fs))"

text \<open>
  \<open>self.metadata[key] = value\<close> is an item assignment: on a dictionary it sets the key,
  on any other value that \<open>json.load\<close> can return it raises \<open>TypeError\<close>.
\<close>

definition save_metadata ::
  "string \<Rightarrow> json \<Rightarrow> manager \<times> fsys \<Rightarrow> (error + unit) \<times> manager \<times> fsys" where
  "save_metadata key val w =
     (case w of (self, fs) \<Rightarrow>
        (case metadata self of
           JDict kvs \<Rightarrow>
             (let self' = self\<lparr>metadata := JDict (AList.update key val kvs)\<rparr>
              in (Inr (), self', write_json (json_processor self') (metadata self') fs))
         | _ \<Rightarrow> (Inl (TypeError ''item assignment''), self, fs)))"

text \<open>The operations that a caller can apply to a manager, and a run of them.\<close>

datatype operation =
    AddContact string string string
  | SaveContacts
  | SaveMetadata string json

fun apply_operation :: "operation \<Rightarrow> manager \<times> fsys \<Rightarrow> (error + unit) \<times> manager \<times> fsys" where
  "apply_operation (AddContact name email phone) w = add_contact name email phone w"
| "apply_operation SaveContacts w = save_contacts w"
| "apply_operation (SaveMetadata key val) w = save_metadata key val w"

text \<open>A caller that carries on after an exception carries on with the state it left.\<close>

fun run :: "operation list \<Rightarrow> manager \<times> fsys \<Rightarrow> manager \<times> fsys" where
  "run [] w = w"
| "run (op # ops) w = run ops (snd (apply_operation op w))"

section \<open>Vocabulary of the statements\<close>

subsection \<open>A manager and a file system to start from\<close>

definition empty_fs :: fsys where
  "empty_fs = \<lparr>files = Map.empty, trace = []\<rparr>"

definition new_manager :: manager where
  "new_manager = \<lparr>csv_processor = \<lparr>filename = ''test_contacts.csv''\<rparr>,
                   json_processor = \<lparr>filename = ''test_metadata.json''\<rparr>,
                   contacts = [], metadata = JDict []\<rparr>"

definition traced_fs :: fsys where
  "traced_fs = \<lparr>files = Map.empty,
                 trace = [OpenRead ''test_contacts.csv'', OpenRead ''test_metadata.json'']\<rparr>"

text \<open>A file system in which the file of contacts holds a record that is not valid.\<close>

definition stored_fs :: fsys where
  "stored_fs = \<lparr>files = [''contacts.csv'' \<mapsto> ''x,bad,bad''], trace = []\<rparr>"

definition loaded_manager :: manager where
  "loaded_manager = \<lparr>csv_processor = \<lparr>filename = ''contacts.csv''\<rparr>,
                      json_processor = \<lparr>filename = ''metadata.json''\<rparr>,
                      contacts = [[''x'', ''bad'', ''bad'']], metadata = JDict []\<rparr>"

text \<open>A contact that passes the two checks of \<open>add_contact\<close>.\<close>

definition valid_contact :: "string list \<Rightarrow> bool" where
  "valid_contact row =
     (case row of
        [name, email, phone] \<Rightarrow> extract_emails email \<noteq> [] \<and> validate_phone_number phone
      | _ \<Rightarrow> False)"

subsection \<open>Shapes of text\<close>

text \<open>
  A shape is a list of tokens, one for each character: a digit, a whitespace character, or
  one given character. \<open>strip\<close> takes a prefix of the shape off a text; a text fits a
  shape when nothing is left.
\<close>

datatype tok = D | S | K char

fun tok_ok :: "tok \<Rightarrow> char \<Rightarrow> bool" where
  "tok_ok D c = is_digit c"
| "tok_ok S c = is_space c"
| "tok_ok (K k) c = (c = k)"

fun strip :: "tok list \<Rightarrow> string \<Rightarrow> string option" where
  "strip [] s = Some s"
| "strip (t # ts) [] = None"
| "strip (t # ts) (c # cs) = (if tok_ok t c then strip ts cs else None)"

definition fits :: "tok list \<Rightarrow> string \<Rightarrow> bool" where
  "fits ts s = (strip ts s = Some [])"

text \<open>\<open>DDD-DDDD\<close>, and the two ways of writing an area code before it.\<close>

definition local_number :: "tok list" where
  "local_number = [D, D, D, K CHR ''-'', D, D, D, D]"

definition area_paren :: "tok list" where
  "area_paren = [K CHR ''('', D, D, D, K CHR '')'']"

definition area_hyphen :: "tok list" where
  "area_hyphen = [D, D, D, K CHR ''-'']"

text \<open>
  The four shapes as the specification lists them: \<open>(DDD) DDD-DDDD\<close>,
  \<open>(DDD)DDD-DDDD\<close>, \<open>DDD-DDD-DDDD\<close> and \<open>DDD-DDDD\<close>.
\<close>

definition spec_phone_shape :: "string \<Rightarrow> bool" where
  "spec_phone_shape s =
     (fits (area_paren @ [K CHR '' ''] @ local_number) s \<or> fits (area_paren @ local_number) s
      \<or> fits (area_hyphen @ local_number) s \<or> fits local_number s)"

text \<open>
  The shapes that the pattern describes: after a parenthesised area code there may be any
  one whitespace character.
\<close>

definition phone_shape :: "string \<Rightarrow> bool" where
  "phone_shape s =
     (fits (area_paren @ [S] @ local_number) s \<or> fits (area_paren @ local_number) s
      \<or> fits (area_hyphen @ local_number) s \<or> fits local_number s)"

text \<open>A text without the newline that ends it, when there is one.\<close>

definition chomp :: "string \<Rightarrow> string" where
  "chomp s = (if s \<noteq> [] \<and> last s = CHR 0x0A then butlast s else s)"

subsection \<open>Patterns that are a shape\<close>

text \<open>
  A pattern made of literals, \<open>\d\<close>, \<open>\s\<close>, sequences and counted repetitions matches
  in one way only: it is a shape. \<open>after ts st\<close> is the state behind the shape \<open>ts\<close>.
\<close>

fun toks_of :: "rx \<Rightarrow> tok list option" where
  "toks_of (Lit c) = Some [K c]"
| "toks_of (Cls items) =
     (if items = [Digit] then Some [D] else if items = [Space] then Some [S] else None)"
| "toks_of (Seq a b) =
     (case toks_of a of
        None \<Rightarrow> None
      | Some ts \<Rightarrow> (case toks_of b of None \<Rightarrow> None | Some us \<Rightarrow> Some (ts @ us)))"
| "toks_of (Rep n a) =
     (case toks_of a of None \<Rightarrow> None | Some ts \<Rightarrow> Some (concat (replicate n ts)))"
| "toks_of r = None"

definition after :: "tok list \<Rightarrow> mstate \<Rightarrow> mstate list" where
  "after ts st =
     (case strip ts (snd st) of None \<Rightarrow> [] | Some rest \<Rightarrow> [(fst st + length ts, rest)])"

definition at_end :: "string \<Rightarrow> bool" where
  "at_end rest = (rest = [] \<or> rest = [CHR 0x0A])"

definition ends_with :: "tok list \<Rightarrow> string \<Rightarrow> bool" where
  "ends_with ts s = (case strip ts s of None \<Rightarrow> False | Some rest \<Rightarrow> at_end rest)"

definition local_rx :: rx where
  "local_rx = Seq (Rep 3 (Cls [Digit])) (Seq (Lit CHR ''-'') (Seq (Rep 4 (Cls [Digit])) Eol))"

subsection \<open>Email addresses\<close>

text \<open>The three character classes of the email pattern.\<close>

definition local_chars :: "char \<Rightarrow> bool" where
  "local_chars = in_cls (alnum @ [Ch CHR ''_'', Ch CHR ''.'', Ch CHR ''+'', Ch CHR ''-''])"
definition group_chars :: "char \<Rightarrow> bool" where
  "group_chars = in_cls (alnum @ [Ch CHR ''-''])"
definition tail_chars :: "char \<Rightarrow> bool" where
  "tail_chars = in_cls (alnum @ [Ch CHR ''-'', Ch CHR ''.''])"

definition email_at :: "string \<Rightarrow> (string \<times> string) option" where
  "email_at t =
     (let l = takeWhile local_chars t in
      if l = [] then None
      else case dropWhile local_chars t of
        [] \<Rightarrow> None
      | a # t2 \<Rightarrow>
          let g = takeWhile group_chars t2 in
          if a \<noteq> CHR ''@'' \<or> g = [] then None
          else case dropWhile group_chars t2 of
            [] \<Rightarrow> None
          | p # t3 \<Rightarrow>
              let e = takeWhile tail_chars t3 in
              if p \<noteq> CHR ''.'' \<or> e = [] then None
              else Some (l @ [a] @ g @ [p] @ e, dropWhile tail_chars t3))"

text \<open>
  \<open>email_at t\<close> is the email address at the head of \<open>t\<close> and the text after it: the
  longest run of local characters, \<open>@\<close>, the longest run of group characters, a dot, and
  the longest run of tail characters, each run with one character at least.
  \<open>scan_emails\<close> reads a text from left to right: where an address begins it takes the
  address and goes on behind it, elsewhere it moves on by one character.
\<close>

function scan_emails :: "string \<Rightarrow> string list" where
  "scan_emails t =
     (case email_at t of
        Some (m, rest) \<Rightarrow> m # scan_emails rest
      | None \<Rightarrow> (case t of [] \<Rightarrow> [] | c # cs \<Rightarrow> scan_emails cs))"
  by pat_completeness auto
termination
proof (relation "measure length")
  fix t :: string and x2 :: "string \<times> string" and m rest :: string
  assume "email_at t = Some x2" and "(m, rest) = x2"
  then obtain a t2 p t3 where *: "takeWhile local_chars t \<noteq> []"
    "dropWhile local_chars t = a # t2" "dropWhile group_chars t2 = p # t3"
    "rest = dropWhile tail_chars t3"
    by (auto simp: email_at_def Let_def split: list.splits if_splits)
  have "length rest \<le> length t3"
    using *(4) by (simp add: length_dropWhile_le)
  also have "\<dots> < length (dropWhile group_chars t2)"
    using *(3) by simp
  also have "\<dots> \<le> length t2"
    by (rule length_dropWhile_le)
  also have "\<dots> < length (dropWhile local_chars t)"
    using *(2) by simp
  also have "\<dots> \<le> length t"
    by (rule length_dropWhile_le)
  finally show "(rest, t) \<in> measure length" by simp
qed simp_all

declare scan_emails.simps [simp del]

text \<open>The shape of one address, by its parts.\<close>

definition email_shape :: "string \<Rightarrow> bool" where
  "email_shape m =
     (\<exists>l g e. m = l @ ''@'' @ g @ ''.'' @ e
        \<and> l \<noteq> [] \<and> list_all local_chars l
        \<and> g \<noteq> [] \<and> list_all group_chars g
        \<and> e \<noteq> [] \<and> list_all tail_chars e)"

text \<open>
  The shape as the specification words it: a local part, \<open>@\<close>, and a domain of one or
  more groups separated by dots, with no dot required.
\<close>

fun split_on :: "char \<Rightarrow> string \<Rightarrow> string list" where
  "split_on sep [] = [[]]"
| "split_on sep (c # cs) =
     (if c = sep then [] # split_on sep cs
      else (case split_on sep cs of [] \<Rightarrow> [[c]] | g # gs \<Rightarrow> (c # g) # gs))"

definition spec_email_shape :: "string \<Rightarrow> bool" where
  "spec_email_shape m =
     (let l = takeWhile (\<lambda>c. c \<noteq> CHR ''@'') m in
      l \<noteq> [] \<and> list_all local_chars l
      \<and> (case dropWhile (\<lambda>c. c \<noteq> CHR ''@'') m of
           [] \<Rightarrow> False
         | a # d \<Rightarrow> list_all (\<lambda>g. g \<noteq> [] \<and> list_all group_chars g) (split_on CHR ''.'' d)))"

text \<open>The ends of a greedy \<open>+\<close> on a character class that come after the longest one.\<close>

definition plus_more :: "citem list \<Rightarrow> mstate \<Rightarrow> mstate list" where
  "plus_more C st = tl (ends (Plus (Cls C)) st)"

subsection \<open>The reader, character by character\<close>


definition line_ends :: "char \<Rightarrow> string \<Rightarrow> bool" where
  "line_ends c cs = (c = LF \<or> (c = CR \<and> (case cs of [] \<Rightarrow> True | d # ds \<Rightarrow> d \<noteq> LF)))"


declare parse_process_char.simps [simp del]


section \<open>Phone numbers\<close>

lemma strip_append: "strip (ts @ us) s = (case strip ts s of None \<Rightarrow> None | Some r \<Rightarrow> strip us r)"
  by (induction ts s rule: strip.induct) auto

lemma after_append: "after (ts @ us) st = concat (map (after us) (after ts st))"
  by (auto simp: after_def strip_append split: option.splits)

lemma after_Nil: "after [] st = [st]"
  by (simp add: after_def)

lemma ends_linear: "toks_of r = Some ts \<Longrightarrow> ends r st = after ts st"
proof (induction r arbitrary: ts st)
  case (Lit c)
  then show ?case by (cases st; cases "snd st") (auto simp: after_def)
next
  case (Cls items)
  then show ?case
    by (cases st; cases "snd st") (auto simp: after_def in_cls_def split: if_splits)
next
  case (Seq a b)
  then obtain ta tb where t: "toks_of a = Some ta" "toks_of b = Some tb" "ts = ta @ tb"
    by (auto split: option.splits)
  have fb: "ends b = after tb"
    by (rule ext) (rule Seq.IH(2)[OF t(2)])
  have "ends (Seq a b) st = concat (map (ends b) (ends a st))" by simp
  also have "\<dots> = concat (map (after tb) (after ta st))"
    using Seq.IH(1)[OF t(1)] fb by simp
  finally show ?case using t by (simp add: after_append)
next
  case (Rep n a)
  then obtain ta where t: "toks_of a = Some ta" "ts = concat (replicate n ta)"
    by (auto split: option.splits)
  have "ends (Rep n a) st = after (concat (replicate n ta)) st" for st
  proof (induction n arbitrary: st)
    case 0
    show ?case by (simp add: after_Nil)
  next
    case (Suc n)
    have fr: "ends (Rep n a) = after (concat (replicate n ta))"
      by (rule ext) (rule Suc)
    have "ends (Rep (Suc n) a) st = concat (map (ends (Rep n a)) (ends a st))" by simp
    also have "\<dots> = concat (map (after (concat (replicate n ta))) (after ta st))"
      using fr Rep.IH[OF t(1)] by simp
    finally show ?case by (simp add: after_append)
  qed
  with t show ?case by simp
qed simp_all

lemma ends_rep_digit: "ends (Rep n (Cls [Digit])) st = after (replicate n D) st"
  using ends_linear[of "Rep n (Cls [Digit])" "replicate n D" st]
  by (simp add: concat_replicate_trivial) 

lemma ends_lit: "ends (Lit c) st = after [K c] st"
  by (rule ends_linear) simp

lemma ends_space: "ends (Cls [Space]) st = after [S] st"
  by (rule ends_linear) simp


lemma ends_seq_linear:
  "toks_of a = Some ts \<Longrightarrow> ends (Seq a R) st = concat (map (ends R) (after ts st))"
  by (simp add: ends_linear)

lemma ends_seq_linear2:
  assumes "toks_of a = Some ts" and "\<And>m. ends R m = concat (map f (after us m))"
  shows "ends (Seq a R) st = concat (map f (after (ts @ us) st))"
proof -
  have "ends R = (\<lambda>m. concat (map f (after us m)))"
    by (rule ext) (rule assms(2))
  then show ?thesis
    using assms(1) by (simp add: ends_linear after_append) (simp add: after_def split: option.splits)
qed

lemma ends_local: "ends local_rx st = concat (map (ends Eol) (after local_number st))"
proof -
  have 3: "ends (Seq (Rep 4 (Cls [Digit])) Eol) m = concat (map (ends Eol) (after [D, D, D, D] m))" for m
    by (rule ends_seq_linear) (simp add: eval_nat_numeral)
  have 2: "ends (Seq (Lit CHR ''-'') (Seq (Rep 4 (Cls [Digit])) Eol)) m
      = concat (map (ends Eol) (after ([K CHR ''-''] @ [D, D, D, D]) m))" for m
    by (rule ends_seq_linear2[OF _ 3]) simp
  have "ends local_rx st = concat (map (ends Eol) (after ([D, D, D] @ [K CHR ''-''] @ [D, D, D, D]) st))"
    unfolding local_rx_def by (rule ends_seq_linear2[OF _ 2]) (simp add: eval_nat_numeral)
  then show ?thesis by (simp add: local_number_def)
qed

lemma accept_local: "ends local_rx m \<noteq> [] \<longleftrightarrow> ends_with local_number (snd m)"
  by (cases m) (auto simp: ends_local after_def ends_with_def at_end_def split: option.splits)

lemma concat_map_nonempty: "concat (map f xs) \<noteq> [] \<longleftrightarrow> (\<exists>m \<in> set xs. f m \<noteq> [])"
  by (induction xs) auto

lemma accept_after:
  "(\<exists>m \<in> set (after ts (i, s)). ends_with us (snd m)) \<longleftrightarrow> ends_with (ts @ us) s"
  by (auto simp: after_def ends_with_def strip_append split: option.splits)

lemma opt_after:
  "concat (map (\<lambda>m. after us m @ [m]) (after ts st)) = after (ts @ us) st @ after ts st"
  by (simp add: after_def strip_append split: option.splits)

lemma ends_area_paren:
  "ends (Seq (Lit CHR ''('') (Seq (Rep 3 (Cls [Digit])) (Seq (Lit CHR '')'') (Opt (Cls [Space]))))) st
   = after (area_paren @ [S]) st @ after area_paren st"
proof -
  have 3: "ends (Seq (Lit CHR '')'') (Opt (Cls [Space]))) m
      = concat (map (\<lambda>m. after [S] m @ [m]) (after [K CHR '')''] m))" for m
  proof -
    have "ends (Opt (Cls [Space])) = (\<lambda>m. after [S] m @ [m])"
      by (rule ext) (simp add: ends_space)
    then show ?thesis by (simp add: ends_lit)
  qed
  have 2: "ends (Seq (Rep 3 (Cls [Digit])) (Seq (Lit CHR '')'') (Opt (Cls [Space])))) m
      = concat (map (\<lambda>m. after [S] m @ [m]) (after ([D, D, D] @ [K CHR '')'']) m))" for m
    by (rule ends_seq_linear2[OF _ 3]) (simp add: eval_nat_numeral)
  have "ends (Seq (Lit CHR ''('') (Seq (Rep 3 (Cls [Digit])) (Seq (Lit CHR '')'') (Opt (Cls [Space]))))) st
      = concat (map (\<lambda>m. after [S] m @ [m]) (after ([K CHR ''(''] @ [D, D, D] @ [K CHR '')'']) st))"
    by (rule ends_seq_linear2[OF _ 2]) simp
  also have "\<dots> = after (area_paren @ [S]) st @ after area_paren st"
    by (simp only: opt_after area_paren_def append.simps)
  finally show ?thesis .
qed

lemma ends_area_hyphen:
  "ends (Seq (Rep 3 (Cls [Digit])) (Lit CHR ''-'')) st = after area_hyphen st"
  by (rule ends_linear) (simp add: area_hyphen_def eval_nat_numeral)

lemma phone_match_iff:
  "validate_phone_number s \<longleftrightarrow>
     ends_with (area_paren @ [S] @ local_number) s \<or> ends_with (area_paren @ local_number) s
     \<or> ends_with (area_hyphen @ local_number) s \<or> ends_with local_number s"
proof -
  let ?A = "Seq (Lit CHR ''('') (Seq (Rep 3 (Cls [Digit])) (Seq (Lit CHR '')'') (Opt (Cls [Space]))))"
  let ?B = "Seq (Rep 3 (Cls [Digit])) (Lit CHR ''-'')"
  have "ends phone_pattern (0, s) = ends (Seq (Opt (Alt ?A ?B)) local_rx) (0, s)"
    unfolding phone_pattern_def local_rx_def[symmetric]
    by (subst ends.simps(3)) (simp del: ends.simps(3))
  also have "\<dots> = concat (map (ends local_rx) (ends ?A (0, s) @ ends ?B (0, s) @ [(0, s)]))"
    by (simp only: ends.simps(3) [of "Opt (Alt ?A ?B)"] ends.simps(4) ends.simps(5) append_assoc)
  finally have "ends phone_pattern (0, s)
      = concat (map (ends local_rx)
          (after (area_paren @ [S]) (0, s) @ after area_paren (0, s) @ after area_hyphen (0, s) @ [(0, s)]))"
    by (simp only: ends_area_paren ends_area_hyphen append_assoc)
  then have "ends phone_pattern (0, s) \<noteq> [] \<longleftrightarrow>
      (\<exists>m \<in> set (after (area_paren @ [S]) (0, s)). ends_with local_number (snd m))
      \<or> (\<exists>m \<in> set (after area_paren (0, s)). ends_with local_number (snd m))
      \<or> (\<exists>m \<in> set (after area_hyphen (0, s)). ends_with local_number (snd m))
      \<or> ends_with local_number s"
    by (simp only: concat_map_nonempty accept_local set_append bex_Un) simp
  then show ?thesis
    unfolding accept_after
    by (auto simp: validate_phone_number_def re_match_def split: list.splits)
qed

lemma strip_Cons_Some:
  "strip (t # ts) s = Some r \<longleftrightarrow> (\<exists>c cs. s = c # cs \<and> tok_ok t c \<and> strip ts cs = Some r)"
  by (cases s) auto

lemma strip_extend: "strip ts p = Some r \<Longrightarrow> strip ts (p @ x) = Some (r @ x)"
  by (induction ts p rule: strip.induct) (auto split: if_splits)

lemma strip_split: "strip ts s = Some r \<Longrightarrow> \<exists>p. s = p @ r \<and> strip ts p = Some []"
proof (induction ts s rule: strip.induct)
  case (3 t ts c cs)
  then obtain p where "cs = p @ r" "strip ts p = Some []" "tok_ok t c"
    by (auto split: if_splits)
  then show ?case by (intro exI[of _ "c # p"]) simp
qed auto

lemma fits_last_digit:
  "fits (ts @ [D]) s \<Longrightarrow> s \<noteq> [] \<and> last s \<noteq> CHR 0x0A"
proof (induction ts s rule: strip.induct)
  case (1 s)
  then show ?case by (cases s) (auto simp: fits_def is_digit_def split: if_splits list.splits)
next
  case (2 t ts)
  then show ?case by (simp add: fits_def)
next
  case (3 t ts c cs)
  then show ?case by (auto simp: fits_def split: if_splits)
qed

lemma ends_with_chomp:
  assumes "\<And>s. fits ts s \<Longrightarrow> s \<noteq> [] \<and> last s \<noteq> CHR 0x0A"
  shows "ends_with ts s \<longleftrightarrow> fits ts (chomp s)"
proof
  assume "ends_with ts s"
  then obtain r where r: "strip ts s = Some r" "r = [] \<or> r = [CHR 0x0A]"
    by (auto simp: ends_with_def at_end_def split: option.splits)
  from strip_split[OF r(1)] obtain p where p: "s = p @ r" "strip ts p = Some []" by blast
  from r(2) show "fits ts (chomp s)"
  proof
    assume "r = []"
    with p assms[of p] show ?thesis by (simp add: fits_def chomp_def)
  next
    assume "r = [CHR 0x0A]"
    with p show ?thesis by (simp add: fits_def chomp_def)
  qed
next
  assume f: "fits ts (chomp s)"
  show "ends_with ts s"
  proof (cases "s \<noteq> [] \<and> last s = CHR 0x0A")
    case True
    then have s: "s = butlast s @ [CHR 0x0A]" by (metis append_butlast_last_id)
    from f True have "strip ts (butlast s) = Some []" by (simp add: fits_def chomp_def)
    from strip_extend[OF this, of "[CHR 0x0A]"] s show ?thesis
      by (simp add: ends_with_def at_end_def)
  next
    case False
    with f show ?thesis by (auto simp: fits_def chomp_def ends_with_def at_end_def)
  qed
qed

lemma phone_shape_iff: "validate_phone_number s \<longleftrightarrow> phone_shape (chomp s)"
proof -
  have l: "local_number = [D, D, D, K CHR ''-'', D, D, D] @ [D]"
    by (simp add: local_number_def)
  have "ends_with (pre @ local_number) s \<longleftrightarrow> fits (pre @ local_number) (chomp s)" for pre
    by (rule ends_with_chomp) (use fits_last_digit[of "pre @ [D, D, D, K CHR ''-'', D, D, D]"] in \<open>simp add: l\<close>)
  from this[of "[]"] this[of area_hyphen] this[of area_paren] this[of "area_paren @ [S]"]
  show ?thesis
    by (simp add: phone_match_iff phone_shape_def)
qed

lemma phone_shape_prefix_free:
  assumes "phone_shape p" and "phone_shape (p @ g)"
  shows "g = []"
proof -
  have *: "strip ts (p @ g) = Some g" if "fits ts p" for ts
    using strip_extend[of ts p "[]" g] that by (simp add: fits_def)
  from assms show ?thesis
    unfolding phone_shape_def
    by (auto dest!: * simp: fits_def local_number_def area_paren_def area_hyphen_def
        strip_Cons_Some is_digit_def is_space_def)
qed





text \<open>
  Claim C1, as the code has it. The match is anchored at both ends: a text that has one
  of the shapes, followed by further characters, is rejected, unless what follows is a
  single newline.
\<close>

theorem phone_anchored_at_both_ends:
  assumes "phone_shape p" and "g \<noteq> []"
  shows "validate_phone_number (p @ g) \<longleftrightarrow> g = [CHR 0x0A]"
proof (cases "last g = CHR 0x0A")
  case True
  with assms(2) have g: "g = butlast g @ [CHR 0x0A]"
    by (metis append_butlast_last_id)
  then have "chomp (p @ g) = p @ butlast g"
    by (metis append_assoc butlast_snoc chomp_def last_snoc snoc_eq_iff_butlast)
  then have "validate_phone_number (p @ g) \<longleftrightarrow> phone_shape (p @ butlast g)"
    by (simp add: phone_shape_iff)
  also have "\<dots> \<longleftrightarrow> butlast g = []"
    using phone_shape_prefix_free [OF assms(1)] assms(1) by auto
  also have "\<dots> \<longleftrightarrow> g = [CHR 0x0A]"
    using g by (metis append_Nil butlast_snoc)
  finally show ?thesis .
next
  case False
  with assms(2) have "chomp (p @ g) = p @ g"
    by (simp add: chomp_def)
  then have "validate_phone_number (p @ g) \<longleftrightarrow> phone_shape (p @ g)"
    by (simp add: phone_shape_iff)
  with phone_shape_prefix_free [OF assms(1)] assms(2) False show ?thesis
    by auto
qed

theorem phone_anchored_at_both_ends_witness:
  "phone_shape ''123-4567'' \<and> ''x'' \<noteq> []
   \<and> \<not> validate_phone_number (''123-4567'' @ ''x'')
   \<and> validate_phone_number (''123-4567'' @ [CHR 0x0A])"
proof -
  have p: "phone_shape ''123-4567''"
    by code_simp
  have x: "''x'' \<noteq> []" and n: "[CHR 0x0A] \<noteq> []"
    by simp_all
  from phone_anchored_at_both_ends [OF p x] phone_anchored_at_both_ends [OF p n] p
  show ?thesis by simp
qed

text \<open>
  The claim as the specification states it fails: \<open>123-4567\<close> is a valid phone number,
  and with the character \<open>x\<close> after it the text is rejected.
\<close>

theorem phone_trailing_text_counterexample:
  "spec_phone_shape ''123-4567'' \<and> validate_phone_number ''123-4567''
   \<and> \<not> validate_phone_number ''123-4567x''"
  by code_simp

section \<open>Email addresses\<close>

lemma ends_plus_Nil: "ends (Plus (Cls C)) (i, []) = []"
  by (subst ends.simps(6)) simp

lemma ends_plus_Cons:
  "ends (Plus (Cls C)) (i, x # xs) =
     (if in_cls C x then ends (Plus (Cls C)) (Suc i, xs) @ [(Suc i, xs)] else [])"
  by (subst ends.simps(6)) simp

lemma ends_plus_then:
  assumes blocked: "\<And>i y ys. in_cls C y \<Longrightarrow> ends T (i, y # ys) = []"
  shows "ends (Seq (Plus (Cls C)) T) (i, r) =
     (if takeWhile (in_cls C) r = [] then []
      else ends T (i + length (takeWhile (in_cls C) r), dropWhile (in_cls C) r))"
proof (induction r arbitrary: i)
  case Nil
  show ?case by (simp add: ends_plus_Nil)
next
  case (Cons x xs)
  show ?case
  proof (cases "in_cls C x")
    case False
    then show ?thesis by (simp add: ends_plus_Cons)
  next
    case True
    have step: "ends (Seq (Plus (Cls C)) T) (i, x # xs) =
        ends (Seq (Plus (Cls C)) T) (Suc i, xs) @ ends T (Suc i, xs)"
      using True by (simp add: ends_plus_Cons)
    show ?thesis
    proof (cases "takeWhile (in_cls C) xs = []")
      case e: True
      then show ?thesis using True step Cons[of "Suc i"]
        by (cases xs) (auto split: if_splits)
    next
      case ne: False
      then obtain y ys where "xs = y # ys" "in_cls C y"
        by (cases xs) (auto split: if_splits)
      with blocked have "ends T (Suc i, xs) = []" by simp
      with True step Cons[of "Suc i"] ne show ?thesis by simp
    qed
  qed
qed

lemma ends_plus_last:
  "\<exists>more. ends (Plus (Cls C)) (i, r) =
     (if takeWhile (in_cls C) r = [] then []
      else (i + length (takeWhile (in_cls C) r), dropWhile (in_cls C) r) # more)"
proof (induction r arbitrary: i)
  case Nil
  show ?case by (simp add: ends_plus_Nil)
next
  case (Cons x xs)
  from Cons[of "Suc i"] obtain more where more: "ends (Plus (Cls C)) (Suc i, xs) =
     (if takeWhile (in_cls C) xs = [] then []
      else (Suc i + length (takeWhile (in_cls C) xs), dropWhile (in_cls C) xs) # more)"
    by blast
  show ?case
  proof (cases "in_cls C x")
    case False
    then show ?thesis by (simp add: ends_plus_Cons)
  next
    case True
    show ?thesis
    proof (cases "takeWhile (in_cls C) xs = []")
      case e: True
      then have "dropWhile (in_cls C) xs = xs"
        by (cases xs) (auto split: if_splits)
      with e True more show ?thesis by (simp add: ends_plus_Cons)
    next
      case ne: False
      with True more show ?thesis by (simp add: ends_plus_Cons)
    qed
  qed
qed

lemma ends_plus_first:
  "ends (Plus (Cls C)) (i, r) =
     (if takeWhile (in_cls C) r = [] then []
      else (i + length (takeWhile (in_cls C) r), dropWhile (in_cls C) r) # plus_more C (i, r))"
  using ends_plus_last[of C i r] by (auto simp: plus_more_def)

lemma ends_lit_then:
  "ends (Seq (Lit c) R) (i, r) = (case r of [] \<Rightarrow> [] | x # xs \<Rightarrow> if x = c then ends R (Suc i, xs) else [])"
  by (cases r) auto

lemma at_not_local: "in_cls (alnum @ [Ch CHR ''_'', Ch CHR ''.'', Ch CHR ''+'', Ch CHR ''-'']) y \<Longrightarrow> y \<noteq> CHR ''@''"
  by (auto simp: in_cls_def alnum_def)

lemma dot_not_group: "in_cls (alnum @ [Ch CHR ''-'']) y \<Longrightarrow> y \<noteq> CHR ''.''"
  by (auto simp: in_cls_def alnum_def)

lemma ends_email:
  "\<exists>more. ends email_pattern (i, t) =
     (case email_at t of None \<Rightarrow> [] | Some (m, rest) \<Rightarrow> (i + length m, rest) # more)"
proof -
  let ?L = "alnum @ [Ch CHR ''_'', Ch CHR ''.'', Ch CHR ''+'', Ch CHR ''-'']"
  let ?G = "alnum @ [Ch CHR ''-'']"
  let ?E = "alnum @ [Ch CHR ''-'', Ch CHR ''.'']"
  let ?T3 = "Seq (Lit CHR ''.'') (Plus (Cls ?E))"
  let ?T2 = "Seq (Plus (Cls ?G)) ?T3"
  let ?T1 = "Seq (Lit CHR ''@'') ?T2"
  have e1: "ends email_pattern (i, t) =
     (if takeWhile (in_cls ?L) t = [] then []
      else ends ?T1 (i + length (takeWhile (in_cls ?L) t), dropWhile (in_cls ?L) t))"
    unfolding email_pattern_def
    by (rule ends_plus_then) (simp only: ends_lit_then list.case at_not_local if_False)
  have e2: "ends ?T2 (j, r) =
     (if takeWhile (in_cls ?G) r = [] then []
      else ends ?T3 (j + length (takeWhile (in_cls ?G) r), dropWhile (in_cls ?G) r))" for j r
    by (rule ends_plus_then) (simp only: ends_lit_then list.case dot_not_group if_False)
  define l where "l = takeWhile (in_cls ?L) t"
  define r1 where "r1 = dropWhile (in_cls ?L) t"
  have at: "email_at t =
     (if l = [] then None
      else case r1 of
        [] \<Rightarrow> None
      | a # t2 \<Rightarrow>
          if a \<noteq> CHR ''@'' \<or> takeWhile (in_cls ?G) t2 = [] then None
          else case dropWhile (in_cls ?G) t2 of
            [] \<Rightarrow> None
          | p # t3 \<Rightarrow>
              if p \<noteq> CHR ''.'' \<or> takeWhile (in_cls ?E) t3 = [] then None
              else Some (l @ [a] @ takeWhile (in_cls ?G) t2 @ [p] @ takeWhile (in_cls ?E) t3,
                         dropWhile (in_cls ?E) t3))"
    unfolding email_at_def local_chars_def group_chars_def tail_chars_def Let_def l_def r1_def
    by (rule refl)
  have en: "ends email_pattern (i, t) =
     (if l = [] then []
      else case r1 of
        [] \<Rightarrow> []
      | a # t2 \<Rightarrow>
          if a \<noteq> CHR ''@'' \<or> takeWhile (in_cls ?G) t2 = [] then []
          else case dropWhile (in_cls ?G) t2 of
            [] \<Rightarrow> []
          | p # t3 \<Rightarrow>
              if p \<noteq> CHR ''.'' then []
              else ends (Plus (Cls ?E))
                     (Suc (Suc (i + length l) + length (takeWhile (in_cls ?G) t2)), t3))"
    unfolding e1 ends_lit_then e2 l_def[symmetric] r1_def[symmetric]
    by (simp split: list.splits del: dropWhile_eq_Nil_conv)
  show ?thesis
    unfolding en at ends_plus_first
    by (simp split: list.splits del: dropWhile_eq_Nil_conv)
qed

lemma email_at_parts:
  assumes "email_at t = Some (m, rest)"
  shows "t = m @ rest" and "m \<noteq> []"
proof -
  from assms obtain a t2 p t3 where *:
    "dropWhile local_chars t = a # t2" "dropWhile group_chars t2 = p # t3"
    "m = takeWhile local_chars t @ [a] @ takeWhile group_chars t2 @ [p] @ takeWhile tail_chars t3"
    "rest = dropWhile tail_chars t3" "takeWhile local_chars t \<noteq> []"
    by (auto simp: email_at_def Let_def split: list.splits if_splits)
  have 1: "t = takeWhile local_chars t @ a # t2"
    using takeWhile_dropWhile_id[of local_chars t] *(1) by simp
  have 2: "t2 = takeWhile group_chars t2 @ p # t3"
    using takeWhile_dropWhile_id[of group_chars t2] *(2) by simp
  have 3: "t3 = takeWhile tail_chars t3 @ rest"
    using *(4) by simp
  have "m @ rest = takeWhile local_chars t @ a # takeWhile group_chars t2 @ p # (takeWhile tail_chars t3 @ rest)"
    using *(3) by simp
  also have "\<dots> = takeWhile local_chars t @ a # (takeWhile group_chars t2 @ p # t3)"
    using 3 by simp
  also have "\<dots> = t"
    using 1 2 by simp
  finally show "t = m @ rest" by simp
  from * show "m \<noteq> []" by simp
qed

lemma search_email:
  "search email_pattern False (i, t) =
     (case email_at t of
        Some (m, rest) \<Rightarrow> Some ((i, t), (i + length m, rest))
      | None \<Rightarrow> (case t of [] \<Rightarrow> None | c # cs \<Rightarrow> search email_pattern False (Suc i, cs)))"
proof -
  from ends_email[of i t] obtain more where
    "ends email_pattern (i, t) =
      (case email_at t of None \<Rightarrow> [] | Some (m, rest) \<Rightarrow> (i + length m, rest) # more)"
    by blast
  then show ?thesis
    by (subst search.simps) (simp split: option.splits)
qed

lemma findall_email: "findall email_pattern False (i, t) = scan_emails t"
proof (induction t arbitrary: i rule: scan_emails.induct)
  case (1 t)
  show ?case
  proof (cases "email_at t")
    case None
    show ?thesis
    proof (cases t)
      case Nil
      have "search email_pattern False (i, t) = None"
        using search_email[of i t] None Nil by simp
      with None Nil scan_emails.simps[of t] findall.simps[of email_pattern False "(i, t)"]
      show ?thesis by simp
    next
      case (Cons c cs)
      have "search email_pattern False (i, t) = search email_pattern False (Suc i, cs)"
        using search_email[of i t] None Cons by simp
      then have "findall email_pattern False (i, t) = findall email_pattern False (Suc i, cs)"
        using findall.simps[of email_pattern False "(i, t)"]
          findall.simps[of email_pattern False "(Suc i, cs)"] by simp
      also have "\<dots> = scan_emails cs"
        by (rule "1.IH"(1)[OF None Cons])
      also have "\<dots> = scan_emails t"
        using scan_emails.simps[of t] None Cons by simp
      finally show ?thesis .
    qed
  next
    case (Some a)
    obtain m rest where a: "a = (m, rest)" by (cases a)
    from email_at_parts[of t m rest] Some a have t: "t = m @ rest" and m: "m \<noteq> []" by auto
    have "search email_pattern False (i, t) = Some ((i, t), (i + length m, rest))"
      using search_email[of i t] Some a by simp
    then have "findall email_pattern False (i, t) = m # findall email_pattern False (i + length m, rest)"
      using t m findall.simps[of email_pattern False "(i, t)"] by simp
    also have "\<dots> = m # scan_emails rest"
      using "1.IH"(2)[OF Some a[symmetric]] by simp
    also have "\<dots> = scan_emails t"
      using scan_emails.simps[of t] Some a by simp
    finally show ?thesis .
  qed
qed


lemma email_at_shape:
  assumes "email_at t = Some (m, rest)"
  shows "email_shape m"
proof -
  from assms obtain a t2 p t3 where *:
    "takeWhile local_chars t \<noteq> []" "a = CHR ''@''" "takeWhile group_chars t2 \<noteq> []"
    "p = CHR ''.''" "takeWhile tail_chars t3 \<noteq> []"
    "m = takeWhile local_chars t @ [a] @ takeWhile group_chars t2 @ [p] @ takeWhile tail_chars t3"
    by (auto simp: email_at_def Let_def split: list.splits if_splits)
  have all: "list_all P (takeWhile P xs)" for P and xs :: string
    by (induction xs) auto
  show ?thesis
    unfolding email_shape_def
    by (intro exI[of _ "takeWhile local_chars t"] exI[of _ "takeWhile group_chars t2"]
        exI[of _ "takeWhile tail_chars t3"]) (use * all in simp)
qed

lemma scan_emails_shape:
  "m \<in> set (scan_emails t) \<Longrightarrow> email_shape m \<and> (\<exists>u v. t = u @ m @ v)"
proof (induction t rule: scan_emails.induct)
  case (1 t)
  show ?case
  proof (cases "email_at t")
    case None
    with "1.prems" scan_emails.simps[of t] obtain c cs where t: "t = c # cs"
      and m: "m \<in> set (scan_emails cs)"
      by (cases t) auto
    from "1.IH"(1)[OF None t m] obtain u v where "email_shape m" "cs = u @ m @ v" by blast
    with t show ?thesis by (auto intro: exI[of _ "c # u"])
  next
    case (Some a)
    obtain m' rest where a: "a = (m', rest)" by (cases a)
    from email_at_parts[of t m' rest] Some a have t: "t = m' @ rest" by simp
    from "1.prems" scan_emails.simps[of t] Some a
    have "m = m' \<or> m \<in> set (scan_emails rest)" by simp
    then show ?thesis
    proof
      assume "m = m'"
      with email_at_shape[of t m' rest] Some a t show ?thesis
        by (auto intro: exI[of _ "[]"])
    next
      assume "m \<in> set (scan_emails rest)"
      from "1.IH"(2)[OF Some a[symmetric] this] obtain u v where "email_shape m" "rest = u @ m @ v"
        by blast
      with t show ?thesis by (auto intro: exI[of _ "m' @ u"])
    qed
  qed
qed

lemma not_local_at: "\<not> local_chars CHR ''@''"
  by (simp add: local_chars_def in_cls_def alnum_def)

lemma not_group_dot: "\<not> group_chars CHR ''.''"
  by (simp add: group_chars_def in_cls_def alnum_def)

lemma email_shape_found:
  assumes "email_shape m"
  shows "email_at (m @ v) \<noteq> None"
proof -
  from assms obtain l g e where m: "m = l @ ''@'' @ g @ ''.'' @ e"
    and l: "l \<noteq> []" "list_all local_chars l" and g: "g \<noteq> []" "list_all group_chars g"
    and e: "e \<noteq> []" "list_all tail_chars e"
    unfolding email_shape_def by blast
  have tl: "takeWhile local_chars (m @ v) = l"
    and dl: "dropWhile local_chars (m @ v) = CHR ''@'' # g @ CHR ''.'' # e @ v"
    using l(2) not_local_at by (simp_all add: m list_all_iff takeWhile_append2 dropWhile_append2)
  have tg: "takeWhile group_chars (g @ CHR ''.'' # e @ v) = g"
    and dg: "dropWhile group_chars (g @ CHR ''.'' # e @ v) = CHR ''.'' # e @ v"
    using g(2) not_group_dot by (simp_all add: list_all_iff takeWhile_append2 dropWhile_append2)
  have te: "takeWhile tail_chars (e @ v) \<noteq> []"
    using e by (cases e) auto
  show ?thesis
    using l(1) g(1) te by (simp add: email_at_def Let_def tl dl tg dg)
qed

lemma scan_emails_finds:
  "email_at w \<noteq> None \<Longrightarrow> scan_emails (u @ w) \<noteq> []"
proof (induction u)
  case Nil
  then show ?case using scan_emails.simps[of w] by auto
next
  case (Cons c u)
  then show ?case using scan_emails.simps[of "c # u @ w"] by (auto split: option.splits)
qed

lemma scan_emails_empty_iff:
  "scan_emails t = [] \<longleftrightarrow> \<not> (\<exists>u m v. t = u @ m @ v \<and> email_shape m)"
proof
  assume empty: "scan_emails t = []"
  show "\<not> (\<exists>u m v. t = u @ m @ v \<and> email_shape m)"
  proof
    assume "\<exists>u m v. t = u @ m @ v \<and> email_shape m"
    then obtain u m v where "t = u @ m @ v" "email_shape m" by blast
    with scan_emails_finds[of "m @ v" u] email_shape_found[of m v] empty show False by simp
  qed
next
  assume none: "\<not> (\<exists>u m v. t = u @ m @ v \<and> email_shape m)"
  show "scan_emails t = []"
  proof (rule ccontr)
    assume "scan_emails t \<noteq> []"
    then obtain m where "m \<in> set (scan_emails t)" by (cases "scan_emails t") auto
    from scan_emails_shape[OF this] none show False by blast
  qed
qed

lemma example_text_emails:
  "extract_emails ''Contact me at mol7@kent.ac.uk'' = [''mol7@kent.ac.uk'']"
  by code_simp

text \<open>
  Claim C3, as the code has it. \<open>extract_emails\<close> returns the addresses that a scan of
  the text from left to right finds, each the longest at its place and none overlapping
  another. An address is a local part of one or more letters, digits, \<open>_\<close>, \<open>.\<close>,
  \<open>+\<close>, \<open>-\<close>, then \<open>@\<close>, then a group of one or more letters, digits, \<open>-\<close>, then a dot,
  then one or more letters, digits, \<open>-\<close>, \<open>.\<close>: the dot after the first group of the
  domain is required. Every address returned has this shape and is a part of the text; the
  result is empty exactly when no part of the text has this shape; and the text
  \<open>Contact me at mol7@kent.ac.uk\<close> gives \<open>mol7@kent.ac.uk\<close>.
\<close>

theorem extract_emails_scan:
  "extract_emails text = scan_emails text
   \<and> (\<forall>m \<in> set (extract_emails text). email_shape m \<and> (\<exists>u v. text = u @ m @ v))
   \<and> (extract_emails text = [] \<longleftrightarrow> \<not> (\<exists>u m v. text = u @ m @ v \<and> email_shape m))
   \<and> extract_emails ''Contact me at mol7@kent.ac.uk'' = [''mol7@kent.ac.uk'']"
proof -
  have eq: "extract_emails text = scan_emails text"
    by (simp add: extract_emails_def findall_email)
  show ?thesis
    unfolding eq using scan_emails_shape [of _ "text"] scan_emails_empty_iff [of "text"]
    by (auto simp: example_text_emails eq [symmetric])
qed

theorem extract_emails_scan_witness:
  "extract_emails ''a@b.c@d.e x@y.z'' = [''a@b.c'', ''x@y.z'']
   \<and> scan_emails ''a@b.c@d.e x@y.z'' = [''a@b.c'', ''x@y.z'']
   \<and> email_shape ''a@b.c'' \<and> email_shape ''x@y.z''
   \<and> (\<exists>u m v. ''a@b.c@d.e x@y.z'' = u @ m @ v \<and> email_shape m)"
proof -
  have r: "extract_emails ''a@b.c@d.e x@y.z'' = [''a@b.c'', ''x@y.z'']"
    by code_simp
  from extract_emails_scan [of "''a@b.c@d.e x@y.z''"] r show ?thesis
    by auto
qed

text \<open>
  The claim as the specification states it fails: \<open>a@b\<close> has a local part and a domain of
  one group without a dot, and \<open>extract_emails\<close> does not return it.
\<close>

theorem email_dot_free_domain_counterexample:
  "spec_email_shape ''a@b'' \<and> extract_emails ''a@b'' = []"
  by code_simp

section \<open>Adding a contact\<close>

lemma invalid_email_no_match: "extract_emails ''invalid-email'' = []"
  by code_simp

lemma example_email_matches: "extract_emails ''valid@example.com'' = [''valid@example.com'']"
  by code_simp

lemma ten_digits_rejected: "\<not> validate_phone_number ''1234567890''"
  by code_simp

lemma hyphenated_phone_accepted: "validate_phone_number ''123-456-7890''"
  by code_simp

text \<open>
  Claim C5. \<open>add_contact\<close> raises \<open>InvalidEmail\<close> when \<open>extract_emails\<close> finds no
  match in the email; otherwise it raises \<open>InvalidPhone\<close> when \<open>validate_phone_number\<close>
  rejects the phone; otherwise it raises nothing and appends the list of name, email and
  phone to the contacts. So the email \<open>invalid-email\<close> raises \<open>InvalidEmail\<close> and the phone
  \<open>1234567890\<close> with an email that matches raises \<open>InvalidPhone\<close>; the two errors differ.
\<close>

theorem add_contact_outcome:
  "(extract_emails email = [] \<longrightarrow>
      fst (add_contact name email phone (self, fs)) = Inl InvalidEmail)
   \<and> (extract_emails email \<noteq> [] \<and> \<not> validate_phone_number phone \<longrightarrow>
      fst (add_contact name email phone (self, fs)) = Inl InvalidPhone)
   \<and> (extract_emails email \<noteq> [] \<and> validate_phone_number phone \<longrightarrow>
      fst (add_contact name email phone (self, fs)) = Inr ()
      \<and> contacts (fst (snd (add_contact name email phone (self, fs))))
          = contacts self @ [[name, email, phone]])
   \<and> fst (add_contact name ''invalid-email'' phone (self, fs)) = Inl InvalidEmail
   \<and> (extract_emails email \<noteq> [] \<longrightarrow>
      fst (add_contact name email ''1234567890'' (self, fs)) = Inl InvalidPhone)
   \<and> InvalidEmail \<noteq> InvalidPhone"
  using invalid_email_no_match ten_digits_rejected
  by (simp add: add_contact_def InvalidEmail_def InvalidPhone_def)

theorem add_contact_outcome_witness:
  "extract_emails ''invalid-email'' = []
   \<and> fst (add_contact ''Invalid Email'' ''invalid-email'' ''123-456-7890'' (new_manager, empty_fs))
       = Inl InvalidEmail
   \<and> extract_emails ''valid@example.com'' \<noteq> [] \<and> \<not> validate_phone_number ''1234567890''
   \<and> fst (add_contact ''Invalid Phone'' ''valid@example.com'' ''1234567890'' (new_manager, empty_fs))
       = Inl InvalidPhone
   \<and> validate_phone_number ''123-456-7890''
   \<and> fst (add_contact ''Valid'' ''valid@example.com'' ''123-456-7890'' (new_manager, empty_fs))
       = Inr ()
   \<and> contacts (fst (snd (add_contact ''Valid'' ''valid@example.com'' ''123-456-7890''
         (new_manager, empty_fs))))
       = [[''Valid'', ''valid@example.com'', ''123-456-7890'']]"
proof -
  have a: "extract_emails ''invalid-email'' = []"
    by (rule invalid_email_no_match)
  have b: "extract_emails ''valid@example.com'' \<noteq> []"
    by (simp add: example_email_matches)
  have c: "\<not> validate_phone_number ''1234567890''"
    by (rule ten_digits_rejected)
  have d: "validate_phone_number ''123-456-7890''"
    by (rule hyphenated_phone_accepted)
  from a b c d
    add_contact_outcome [of "''invalid-email''" "''Invalid Email''" "''123-456-7890''"
      new_manager empty_fs]
    add_contact_outcome [of "''valid@example.com''" "''Invalid Phone''" "''1234567890''"
      new_manager empty_fs]
    add_contact_outcome [of "''valid@example.com''" "''Valid''" "''123-456-7890''"
      new_manager empty_fs]
  show ?thesis
    by (simp add: new_manager_def)
qed

text \<open>
  Claim C6. When the email and the phone are valid, \<open>add_contact\<close> succeeds, the last
  contact is then the list of name, email and phone in this order, the contacts before it
  and the metadata are as they were, and the file system is untouched: no file is opened
  and no file is written.
\<close>

theorem add_contact_appends:
  assumes "extract_emails email \<noteq> []" and "validate_phone_number phone"
    and "add_contact name email phone (self, fs) = (r, self', fs')"
  shows "r = Inr () \<and> contacts self' \<noteq> [] \<and> last (contacts self') = [name, email, phone]
    \<and> butlast (contacts self') = contacts self \<and> metadata self' = metadata self
    \<and> fs' = fs"
  using assms by (auto simp: add_contact_def)

theorem add_contact_appends_witness:
  "extract_emails ''Mol7@kent.ac.uk'' \<noteq> [] \<and> validate_phone_number ''123-456-7890''
   \<and> add_contact ''Mol7'' ''Mol7@kent.ac.uk'' ''123-456-7890'' (new_manager, empty_fs)
       = (Inr (), new_manager\<lparr>contacts := [[''Mol7'', ''Mol7@kent.ac.uk'', ''123-456-7890'']]\<rparr>,
          empty_fs)
   \<and> last (contacts (new_manager\<lparr>contacts := [[''Mol7'', ''Mol7@kent.ac.uk'', ''123-456-7890'']]\<rparr>))
       = [''Mol7'', ''Mol7@kent.ac.uk'', ''123-456-7890'']"
proof -
  have e: "extract_emails ''Mol7@kent.ac.uk'' \<noteq> []"
    by code_simp
  have p: "validate_phone_number ''123-456-7890''"
    by (rule hyphenated_phone_accepted)
  have run: "add_contact ''Mol7'' ''Mol7@kent.ac.uk'' ''123-456-7890'' (new_manager, empty_fs)
       = (Inr (), new_manager\<lparr>contacts := [[''Mol7'', ''Mol7@kent.ac.uk'', ''123-456-7890'']]\<rparr>,
          empty_fs)"
    using e p by (simp add: add_contact_def new_manager_def)
  from add_contact_appends [OF e p run] e p run show ?thesis
    by simp
qed

text \<open>
  Claim C10. When \<open>add_contact\<close> raises, the manager (its contacts and its metadata) and
  the file system (the files and the trace of the files opened) are exactly as before.
\<close>

theorem add_contact_failure_atomic:
  assumes "add_contact name email phone (self, fs) = (Inl e, self', fs')"
  shows "self' = self \<and> contacts self' = contacts self \<and> metadata self' = metadata self
    \<and> fs' = fs \<and> files fs' = files fs \<and> trace fs' = trace fs
    \<and> (e = InvalidEmail \<or> e = InvalidPhone)"
  using assms by (auto simp: add_contact_def split: if_splits)

theorem add_contact_failure_atomic_witness:
  "add_contact ''Invalid Phone'' ''valid@example.com'' ''1234567890'' (new_manager, empty_fs)
     = (Inl InvalidPhone, new_manager, empty_fs)
   \<and> trace empty_fs = []"
proof -
  have run: "add_contact ''Invalid Phone'' ''valid@example.com'' ''1234567890''
      (new_manager, empty_fs) = (Inl InvalidPhone, new_manager, empty_fs)"
    using example_email_matches ten_digits_rejected by (simp add: add_contact_def)
  from add_contact_failure_atomic [OF run] run show ?thesis
    by (simp add: empty_fs_def)
qed

section \<open>Reading a resource that does not exist\<close>



section \<open>The contacts of a manager\<close>

lemma apply_operation_contacts:
  assumes "apply_operation op (m, fs) = (r, m', fs')"
  shows "\<exists>added. contacts m' = contacts m @ added \<and> list_all valid_contact added"
proof (cases op)
  case (AddContact name email phone)
  with assms show ?thesis
    by (auto simp: add_contact_def valid_contact_def split: if_splits)
next
  case SaveContacts
  with assms show ?thesis by (auto simp: save_contacts_def)
next
  case (SaveMetadata key val)
  with assms show ?thesis
    by (auto simp: save_metadata_def Let_def split: json.splits)
qed

lemma run_contacts:
  "run ops (m, fs) = (m', fs') \<Longrightarrow>
     \<exists>added. contacts m' = contacts m @ added \<and> list_all valid_contact added"
proof (induction ops arbitrary: m fs)
  case Nil
  then show ?case by simp
next
  case (Cons op ops)
  obtain r m1 fs1 where s: "apply_operation op (m, fs) = (r, m1, fs1)"
    by (cases "apply_operation op (m, fs)") auto
  from apply_operation_contacts[OF s] obtain a1 where a1: "contacts m1 = contacts m @ a1" "list_all valid_contact a1"
    by blast
  from Cons.prems s have "run ops (m1, fs1) = (m', fs')" by simp
  from Cons.IH[OF this] obtain a2 where "contacts m' = contacts m1 @ a2" "list_all valid_contact a2"
    by blast
  with a1 show ?case by (intro exI[of _ "a1 @ a2"]) simp
qed

lemma init_contacts:
  "init csv_file json_file fs = (Inr m0, fs0) \<Longrightarrow>
     fst (read_csv \<lparr>filename = csv_file\<rparr> fs) = Inr (contacts m0)"
  by (auto simp: init_def Let_def split: prod.splits sum.splits)

text \<open>
  Claim C4, as the code has it. The constructor takes the contacts from the file as they
  are, without validating them. Every operation after that leaves the contacts it finds
  in place and adds only contacts that passed the two checks of \<open>add_contact\<close>. So
  after the constructor and any run of operations the contacts are the loaded ones followed
  by valid ones, and all of them are valid when the loaded ones are.
\<close>

theorem contacts_loaded_then_valid:
  assumes "init csv_file json_file fs = (Inr m0, fs0)" and "run ops (m0, fs0) = (m, fs')"
  shows "fst (read_csv \<lparr>filename = csv_file\<rparr> fs) = Inr (contacts m0)
    \<and> (\<exists>added. contacts m = contacts m0 @ added \<and> list_all valid_contact added)
    \<and> (list_all valid_contact (contacts m0) \<longrightarrow> list_all valid_contact (contacts m))"
proof -
  from run_contacts [OF assms(2)] obtain added
    where "contacts m = contacts m0 @ added" "list_all valid_contact added"
    by blast
  with init_contacts [OF assms(1)] show ?thesis
    by auto
qed

theorem contacts_loaded_then_valid_witness:
  "init ''test_contacts.csv'' ''test_metadata.json'' empty_fs = (Inr new_manager, traced_fs)
   \<and> contacts new_manager = []
   \<and> contacts (fst (run [AddContact ''Mol7'' ''Mol7@kent.ac.uk'' ''123-456-7890'',
                          AddContact ''Invalid Email'' ''invalid-email'' ''123-456-7890'',
                          SaveContacts] (new_manager, traced_fs)))
       = [[''Mol7'', ''Mol7@kent.ac.uk'', ''123-456-7890'']]
   \<and> list_all valid_contact [[''Mol7'', ''Mol7@kent.ac.uk'', ''123-456-7890'']]"
proof -
  let ?ops = "[AddContact ''Mol7'' ''Mol7@kent.ac.uk'' ''123-456-7890'',
               AddContact ''Invalid Email'' ''invalid-email'' ''123-456-7890'', SaveContacts]"
  have i: "init ''test_contacts.csv'' ''test_metadata.json'' empty_fs = (Inr new_manager, traced_fs)"
    by (simp add: init_def read_csv_def read_json_def open_read_def empty_fs_def new_manager_def
        traced_fs_def)
  have r: "run ?ops (new_manager, traced_fs)
      = (fst (run ?ops (new_manager, traced_fs)), snd (run ?ops (new_manager, traced_fs)))"
    by simp
  have c: "contacts (fst (run ?ops (new_manager, traced_fs)))
      = [[''Mol7'', ''Mol7@kent.ac.uk'', ''123-456-7890'']]"
    by code_simp
  have n: "contacts new_manager = []"
    by (simp add: new_manager_def)
  from contacts_loaded_then_valid [OF i r] i c n show ?thesis
    by auto
qed

text \<open>
  The claim as the specification states it fails: the constructor loads the record
  \<open>x,bad,bad\<close> from the file, and this contact passes neither check.
\<close>

theorem loaded_contact_unvalidated_counterexample:
  "fst (init ''contacts.csv'' ''metadata.json'' stored_fs) = Inr loaded_manager
   \<and> contacts loaded_manager = [[''x'', ''bad'', ''bad'']]
   \<and> \<not> list_all valid_contact (contacts loaded_manager)"
  by code_simp

section \<open>Records written and read back\<close>

lemma feed_append:
  "feed r (x @ y) = (case feed r x of Inl e \<Rightarrow> Inl e | Inr r' \<Rightarrow> feed r' y)"
  by (induction x arbitrary: r) (auto split: sum.splits)

lemma read_records_reset_Nil: "read_records parse_reset [] = Inr []"
  by (simp add: parse_reset_def)

lemma process_line_snoc:
  "process_line r (cur @ x) =
     (case feed r cur of Inl e \<Rightarrow> Inl e | Inr r1 \<Rightarrow> process_line r1 x)"
  by (simp add: process_line_def feed_append split: sum.splits)





lemma chars_distinct [simp]:
  "quotechar \<noteq> LF" "quotechar \<noteq> CR" "delimiter \<noteq> LF" "delimiter \<noteq> CR" "CR \<noteq> LF"
  "quotechar \<noteq> delimiter" "LF \<noteq> quotechar" "CR \<noteq> quotechar" "LF \<noteq> delimiter"
  "CR \<noteq> delimiter" "LF \<noteq> CR" "delimiter \<noteq> quotechar"
  by (simp_all add: quotechar_def LF_def CR_def delimiter_def)

lemma line_ends_simps [simp]:
  "line_ends LF s" "line_ends CR (LF # s) = False" "line_ends quotechar s = False"
  "line_ends delimiter s = False"
  by (simp_all add: line_ends_def)

















end
